theory Spec2Isabelle
  imports Main
begin

section \<open>Context chains\<close>

text \<open>
  \<^verbatim>\<open>backdrop.go\<close> keeps one \<^verbatim>\<open>context.Context\<close> per request in the package
  variable \<^verbatim>\<open>contexts\<close> and builds every chain with \<^verbatim>\<open>context.Background\<close>,
  \<^verbatim>\<open>context.WithCancel\<close> and \<^verbatim>\<open>context.WithValue\<close> of
  \<^verbatim>\<open>golang.org/x/net/context\<close>. The library is not part of the repository; the
  chains below are the ones these three constructors build, with the documented meaning
  of \<^verbatim>\<open>Value\<close> (the innermost binding of a key wins, a missing key yields
  \<^verbatim>\<open>nil\<close>) and of \<^verbatim>\<open>Done\<close> (closed once the context's own cancel function or an
  ancestor's has been called). Deadlines, timers and hand-written implementations of the
  \<^verbatim>\<open>Context\<close> interface are outside the model.

  A \<open>scope\<close> names one call of \<^verbatim>\<open>WithCancel\<close>: \<open>Root\<close> is the call in
  \<^verbatim>\<open>startBackdrop\<close>, \<open>Entry n\<close> the \<open>n\<close>-th call made by the worker, and
  \<open>Ext n\<close> a call made by code outside the package.
\<close>

datatype scope = Root | Entry nat | Ext nat

text \<open>
  Keys are \<^verbatim>\<open>interface{}\<close> values compared with \<^verbatim>\<open>==\<close>. \<open>IntK i\<close> is a key of
  dynamic type \<^verbatim>\<open>int\<close> and \<open>OtherK x\<close> a key of any other comparable type whose
  value holds no NaN. \<open>NaNK x\<close> is a key that holds a NaN: a \<^verbatim>\<open>float32\<close>,
  \<^verbatim>\<open>float64\<close> or complex NaN, or an array or struct with one in it. \<^verbatim>\<open>nil\<close> and
  values of uncomparable types are not keys of the model.
\<close>

datatype 'k key = IntK int | OtherK 'k | NaNK 'k

text \<open>
  \<open>key_eq k k'\<close> is Go's \<^verbatim>\<open>k == k'\<close> on two keys: the same dynamic type and equal
  values, where a NaN is equal to nothing, itself included.
\<close>

fun holds_NaN :: "'k key \<Rightarrow> bool" where
  "holds_NaN (NaNK x) = True"
| "holds_NaN (IntK i) = False"
| "holds_NaN (OtherK x) = False"

definition key_eq :: "'k key \<Rightarrow> 'k key \<Rightarrow> bool" where
  "key_eq k k' = (k = k' \<and> \<not> holds_NaN k)"

text \<open>
  The \<^verbatim>\<open>const\<close> block declares \<^verbatim>\<open>workerDoneKey int = iota\<close> and, by repetition,
  \<^verbatim>\<open>cancelKey\<close>: the constants 0 and 1 of type \<^verbatim>\<open>int\<close>.
\<close>

definition workerDoneKey :: "'k key" where
  "workerDoneKey = IntK 0"

definition cancelKey :: "'k key" where
  "cancelKey = IntK 1"

text \<open>
  Values are \<^verbatim>\<open>interface{}\<close> as well. The worker only ever asks whether a value is
  \<^verbatim>\<open>nil\<close> and whether its dynamic type is \<^verbatim>\<open>context.CancelFunc\<close>; \<open>CancelFunc s\<close>
  is the function returned by the \<^verbatim>\<open>WithCancel\<close> call \<open>s\<close>, and \<open>Other x\<close> is any
  other non-nil value. A nil function of type \<^verbatim>\<open>context.CancelFunc\<close> is not a value of
  the model.
\<close>

datatype 'v val = NilV | CancelFunc scope | Other 'v

datatype ('k, 'v) ctx =
    Background
  | WithCancel scope "('k, 'v) ctx"
  | WithValue "('k, 'v) ctx" "'k key" "'v val"

fun Value :: "('k, 'v) ctx \<Rightarrow> 'k key \<Rightarrow> 'v val" where
  "Value Background k = NilV"
| "Value (WithCancel s parent) k = Value parent k"
| "Value (WithValue parent key v) k = (if key_eq key k then v else Value parent k)"

text \<open>\<open>Done C ctx\<close>: the channel \<^verbatim>\<open>ctx.Done()\<close> is closed when the scopes in \<open>C\<close> have
  been cancelled.\<close>

fun Done :: "scope set \<Rightarrow> ('k, 'v) ctx \<Rightarrow> bool" where
  "Done C Background = False"
| "Done C (WithCancel s parent) = (s \<in> C \<or> Done C parent)"
| "Done C (WithValue parent key v) = Done C parent"

section \<open>The store\<close>

text \<open>
  \<open>contexts\<close> is the package map \<^verbatim>\<open>map[*http.Request]context.Context\<close>. A slot can
  hold the \<^verbatim>\<open>nil\<close> interface (\<^verbatim>\<open>SetContext(r, nil)\<close> stores it), hence the inner
  \<open>option\<close>: \<open>contexts s r = None\<close> is a missing key, \<open>Some None\<close> a key bound to
  \<^verbatim>\<open>nil\<close>. The fetch, fetchCtx, set and kill branches of the worker treat a key bound
  to \<^verbatim>\<open>nil\<close> like a missing key; the setCtx branch treats it like any bound key.
  \<open>cancelled\<close> is the set of scopes whose cancel function has been called, and
  \<open>allocated\<close> counts the worker's \<^verbatim>\<open>WithCancel\<close> calls, so that each call gets a
  scope of its own.
\<close>

record ('r, 'k, 'v) store =
  contexts :: "'r \<rightharpoonup> ('k, 'v) ctx option"
  cancelled :: "scope set"
  allocated :: nat

datatype error = ErrSettingToBackdrop | ErrGettingFromBackdrop | ErrEvictingFromBackdrop

text \<open>
  \<^verbatim>\<open>startBackdrop\<close> makes the empty map and hands every worker
  \<^verbatim>\<open>context.WithCancel(ctx)\<close>, with \<^verbatim>\<open>context.Background()\<close> for a \<^verbatim>\<open>nil\<close>
  \<^verbatim>\<open>ctx\<close>. \<open>startBackdrop_ctx\<close> is that context and \<open>startBackdrop C\<close> the store,
  \<open>C\<close> being the scopes already cancelled when the store starts.
\<close>

definition startBackdrop_ctx :: "('k, 'v) ctx option \<Rightarrow> ('k, 'v) ctx" where
  "startBackdrop_ctx ctx =
     WithCancel Root (case ctx of None \<Rightarrow> Background | Some c \<Rightarrow> c)"

definition startBackdrop :: "scope set \<Rightarrow> ('r, 'k, 'v) store" where
  "startBackdrop C = \<lparr>contexts = Map.empty, cancelled = C, allocated = 0\<rparr>"

subsection \<open>The branches of the worker's select\<close>

text \<open>
  Each function is one \<^verbatim>\<open>case\<close> of the \<^verbatim>\<open>select\<close> in \<^verbatim>\<open>worker\<close>, run to its reply
  by a single worker with no other goroutine interfering: it takes the store and the
  fields of the message and returns the value sent on \<^verbatim>\<open>RespondTo\<close> with the store
  after the branch. The two \<^verbatim>\<open>fmt.Println\<close> calls of the kill branch write to standard
  output only and are left out.
\<close>

definition worker_fetchCtx ::
  "('k, 'v) ctx \<Rightarrow> ('r, 'k, 'v) store \<Rightarrow> 'r \<Rightarrow> ('k, 'v) ctx option \<times> ('r, 'k, 'v) store" where
  "worker_fetchCtx baseCtx s r =
     (case contexts s r of
        Some (Some ctx) \<Rightarrow> (Some ctx, s)
      | _ \<Rightarrow>
         (let cancel = Entry (allocated s);
              ctx = WithValue (WithCancel cancel baseCtx) cancelKey (CancelFunc cancel)
          in (Some ctx,
              s\<lparr>contexts := (contexts s)(r \<mapsto> Some ctx), allocated := Suc (allocated s)\<rparr>)))"

definition worker_fetch :: "('r, 'k, 'v) store \<Rightarrow> 'r \<Rightarrow> 'k key \<Rightarrow> 'v val" where
  "worker_fetch s r k =
     (case contexts s r of
        Some (Some ctx) \<Rightarrow> Value ctx k
      | _ \<Rightarrow> NilV)"

text \<open>
  The kill branch calls the cancel function found under \<open>cancelKey\<close> and then receives
  from \<^verbatim>\<open>ctx.Done()\<close>. When the function called belongs to a scope outside the stored
  chain and the chain is not cancelled already, that receive never completes: the worker
  stays blocked and no reply is sent, which is the result \<open>None\<close>. The reply itself is
  always the \<^verbatim>\<open>nil\<close> error.
\<close>

definition worker_kill ::
  "('r, 'k, 'v) store \<Rightarrow> 'r \<Rightarrow> (error option \<times> ('r, 'k, 'v) store) option" where
  "worker_kill s r =
     (case contexts s r of
        Some (Some ctx) \<Rightarrow>
          (case Value ctx cancelKey of
             CancelFunc cancel \<Rightarrow>
               (let C = insert cancel (cancelled s) in
                if Done C ctx
                then Some (None, s\<lparr>contexts := (contexts s)(r := None), cancelled := C\<rparr>)
                else None)
           | _ \<Rightarrow> Some (None, s))
      | _ \<Rightarrow> Some (None, s))"

definition worker_setCtx ::
  "('r, 'k, 'v) store \<Rightarrow> 'r \<Rightarrow> ('k, 'v) ctx option \<Rightarrow> error option \<times> ('r, 'k, 'v) store" where
  "worker_setCtx s r ctx =
     (case contexts s r of
        Some old \<Rightarrow> (None, s\<lparr>contexts := (contexts s)(r \<mapsto> ctx)\<rparr>)
      | None \<Rightarrow> (None, s))"

definition worker_set ::
  "('k, 'v) ctx \<Rightarrow> ('r, 'k, 'v) store \<Rightarrow> 'r \<Rightarrow> 'k key \<Rightarrow> 'v val
     \<Rightarrow> ('k, 'v) ctx option \<times> ('r, 'k, 'v) store" where
  "worker_set baseCtx s r k v =
     (case contexts s r of
        Some (Some old) \<Rightarrow>
          (let ctx = WithValue old k v
           in (Some ctx, s\<lparr>contexts := (contexts s)(r \<mapsto> Some ctx)\<rparr>))
      | _ \<Rightarrow>
          (let cancel = Entry (allocated s);
               ctx = WithValue (WithValue (WithCancel cancel baseCtx) k v)
                       cancelKey (CancelFunc cancel)
           in (Some ctx,
               s\<lparr>contexts := (contexts s)(r \<mapsto> Some ctx), allocated := Suc (allocated s)\<rparr>)))"

subsection \<open>The public functions\<close>

text \<open>
  Each public function sends one message and returns what it makes of the reply. Go's
  \<^verbatim>\<open>error\<close> results are \<open>error option\<close> (\<open>None\<close> is \<^verbatim>\<open>nil\<close>); \<^verbatim>\<open>Get\<close>'s pair is a sum.
\<close>

definition Evict ::
  "('r, 'k, 'v) store \<Rightarrow> 'r \<Rightarrow> (error option \<times> ('r, 'k, 'v) store) option" where
  "Evict s r = worker_kill s r"

definition GetContext ::
  "('k, 'v) ctx \<Rightarrow> ('r, 'k, 'v) store \<Rightarrow> 'r \<Rightarrow> ('k, 'v) ctx option \<times> ('r, 'k, 'v) store" where
  "GetContext baseCtx s r = worker_fetchCtx baseCtx s r"

definition SetContext ::
  "('r, 'k, 'v) store \<Rightarrow> 'r \<Rightarrow> ('k, 'v) ctx option \<Rightarrow> error option \<times> ('r, 'k, 'v) store" where
  "SetContext s r ctx = worker_setCtx s r ctx"

definition Set ::
  "('k, 'v) ctx \<Rightarrow> ('r, 'k, 'v) store \<Rightarrow> 'r \<Rightarrow> 'k key \<Rightarrow> 'v val
     \<Rightarrow> error option \<times> ('r, 'k, 'v) store" where
  "Set baseCtx s r k v =
     (case worker_set baseCtx s r k v of
        (response, s') \<Rightarrow>
          (if response = None then Some ErrSettingToBackdrop else None, s'))"

definition Get :: "('r, 'k, 'v) store \<Rightarrow> 'r \<Rightarrow> 'k key \<Rightarrow> error + 'v val" where
  "Get s r k =
     (let v = worker_fetch s r k
      in if v = NilV then Inl ErrGettingFromBackdrop else Inr v)"

subsection \<open>Sequences of calls\<close>

text \<open>
  A \<open>call\<close> is one call of a public function, and \<open>serve\<close> runs a list of calls one
  after the other against the store, as a single worker does for callers that each
  wait for their reply. \<^verbatim>\<open>Get\<close> leaves the store as it is. A call of \<^verbatim>\<open>Evict\<close>
  that never returns stops the run (\<open>None\<close>): the only worker is blocked.
\<close>

datatype ('r, 'k, 'v) call =
    CallGet 'r "'k key"
  | CallSet 'r "'k key" "'v val"
  | CallGetContext 'r
  | CallSetContext 'r "('k, 'v) ctx option"
  | CallEvict 'r

fun call_step ::
  "('k, 'v) ctx \<Rightarrow> ('r, 'k, 'v) store \<Rightarrow> ('r, 'k, 'v) call \<Rightarrow> ('r, 'k, 'v) store option" where
  "call_step baseCtx s (CallGet r k) = Some s"
| "call_step baseCtx s (CallSet r k v) = Some (snd (Set baseCtx s r k v))"
| "call_step baseCtx s (CallGetContext r) = Some (snd (GetContext baseCtx s r))"
| "call_step baseCtx s (CallSetContext r ctx) = Some (snd (SetContext s r ctx))"
| "call_step baseCtx s (CallEvict r) = map_option snd (Evict s r)"

fun serve ::
  "('k, 'v) ctx \<Rightarrow> ('r, 'k, 'v) store \<Rightarrow> ('r, 'k, 'v) call list \<Rightarrow> ('r, 'k, 'v) store option" where
  "serve baseCtx s [] = Some s"
| "serve baseCtx s (c # cs) =
     (case call_step baseCtx s c of None \<Rightarrow> None | Some s' \<Rightarrow> serve baseCtx s' cs)"

text \<open>The request a call is about.\<close>

fun call_request :: "('r, 'k, 'v) call \<Rightarrow> 'r" where
  "call_request (CallGet r k) = r"
| "call_request (CallSet r k v) = r"
| "call_request (CallGetContext r) = r"
| "call_request (CallSetContext r ctx) = r"
| "call_request (CallEvict r) = r"

text \<open>
  \<open>disturbs r k c\<close>: the call \<open>c\<close> can change what key \<open>k\<close> resolves to for request
  \<open>r\<close>. These are \<^verbatim>\<open>Set\<close> of a key equal to \<open>k\<close>, and \<^verbatim>\<open>SetContext\<close> and
  \<^verbatim>\<open>Evict\<close> of the same request.
\<close>

fun disturbs :: "'r \<Rightarrow> 'k key \<Rightarrow> ('r, 'k, 'v) call \<Rightarrow> bool" where
  "disturbs r k (CallSet r' k' v) = (r' = r \<and> key_eq k' k)"
| "disturbs r k (CallSetContext r' ctx) = (r' = r)"
| "disturbs r k (CallEvict r') = (r' = r)"
| "disturbs r k (CallGet r' k') = False"
| "disturbs r k (CallGetContext r') = False"

text \<open>
  \<open>replaces r c\<close>: the call \<open>c\<close> can store another chain for request \<open>r\<close> or remove
  its entry. These are \<^verbatim>\<open>Set\<close>, \<^verbatim>\<open>SetContext\<close> and \<^verbatim>\<open>Evict\<close> of that request.
\<close>

fun replaces :: "'r \<Rightarrow> ('r, 'k, 'v) call \<Rightarrow> bool" where
  "replaces r (CallSet r' k v) = (r' = r)"
| "replaces r (CallSetContext r' ctx) = (r' = r)"
| "replaces r (CallEvict r') = (r' = r)"
| "replaces r (CallGet r' k) = False"
| "replaces r (CallGetContext r') = False"

text \<open>
  \<open>plain c\<close>: the call \<open>c\<close> is anything but a \<^verbatim>\<open>SetContext\<close> or a \<^verbatim>\<open>Set\<close> under the
  internal key. \<open>handles_intact s\<close>: every entry of the map holds a chain that
  resolves \<open>cancelKey\<close> to the cancel function of one of its own scopes.
\<close>

fun plain :: "('r, 'k, 'v) call \<Rightarrow> bool" where
  "plain (CallSet r k v) = (k \<noteq> cancelKey)"
| "plain (CallSetContext r ctx) = False"
| "plain (CallGet r k) = True"
| "plain (CallGetContext r) = True"
| "plain (CallEvict r) = True"

definition handles_intact :: "('r, 'k, 'v) store \<Rightarrow> bool" where
  "handles_intact s =
     (\<forall>r slot. contexts s r = Some slot \<longrightarrow>
        (\<exists>ctx c. slot = Some ctx \<and> Value ctx cancelKey = CancelFunc c \<and> Done {c} ctx))"

subsection \<open>A started store\<close>

text \<open>
  \<^verbatim>\<open>Start(nil)\<close>, as the tests call it: \<^verbatim>\<open>SaneDefaults\<close> replaces the missing context
  by \<^verbatim>\<open>context.Background()\<close>, which \<^verbatim>\<open>startBackdrop\<close> wraps for the workers. Requests
  are numbered, keys and values are strings.
\<close>

definition started_ctx :: "(string, string) ctx" where
  "started_ctx = startBackdrop_ctx (Some Background)"

definition started_store :: "(nat, string, string) store" where
  "started_store = startBackdrop {}"

lemmas backdrop_defs =
  started_ctx_def started_store_def startBackdrop_ctx_def startBackdrop_def
  cancelKey_def Let_def
  Get_def worker_fetch_def Set_def worker_set_def GetContext_def worker_fetchCtx_def
  SetContext_def worker_setCtx_def Evict_def worker_kill_def

section \<open>Key comparison\<close>

lemma key_eq_IntK [simp]: "key_eq (IntK i) k = (IntK i = k)"
  by (simp add: key_eq_def)

lemma key_eq_OtherK [simp]: "key_eq (OtherK x) k = (OtherK x = k)"
  by (simp add: key_eq_def)

lemma key_eq_NaNK [simp]: "key_eq (NaNK x) k = False" "key_eq k (NaNK x) = False"
  by (auto simp add: key_eq_def)

lemma key_eq_cancelKey [simp]:
  "key_eq cancelKey k = (cancelKey = k)" "key_eq k cancelKey = (k = cancelKey)"
  by (auto simp add: key_eq_def cancelKey_def)

lemma key_eq_self: "key_eq k k \<Longrightarrow> key_eq k' k = (k' = k)"
  by (auto simp add: key_eq_def)

lemma Value_not_self: "\<not> key_eq k k \<Longrightarrow> Value ctx k = NilV"
  by (induction ctx) (auto simp add: key_eq_def)

lemma Value_set_nil: "Value (WithValue ctx k NilV) k = NilV"
  by (simp add: Value_not_self)

section \<open>What each call does to the entry of its request\<close>

lemma Get_absent: "contexts s r = None \<Longrightarrow> Get s r k = Inl ErrGettingFromBackdrop"
  by (simp add: Get_def worker_fetch_def)

lemma Get_nil_entry: "contexts s r = Some None \<Longrightarrow> Get s r k = Inl ErrGettingFromBackdrop"
  by (simp add: Get_def worker_fetch_def)

lemma Get_entry:
  "contexts s r = Some (Some ctx) \<Longrightarrow>
   Get s r k = (if Value ctx k = NilV then Inl ErrGettingFromBackdrop else Inr (Value ctx k))"
  by (simp add: Get_def worker_fetch_def)

lemma Set_entry:
  "contexts s r = Some (Some old) \<Longrightarrow>
   Set baseCtx s r k v = (None, s\<lparr>contexts := (contexts s)(r \<mapsto> Some (WithValue old k v))\<rparr>)"
  by (simp add: Set_def worker_set_def Let_def)

lemma Set_no_chain:
  "contexts s r = None \<or> contexts s r = Some None \<Longrightarrow>
   Set baseCtx s r k v =
     (None, s\<lparr>contexts := (contexts s)(r \<mapsto> Some (WithValue (WithValue
                 (WithCancel (Entry (allocated s)) baseCtx) k v) cancelKey
                 (CancelFunc (Entry (allocated s))))),
              allocated := Suc (allocated s)\<rparr>)"
  by (auto simp add: Set_def worker_set_def Let_def)

lemma Set_makes_chain: "\<exists>ctx. contexts (snd (Set baseCtx s r k v)) r = Some (Some ctx)"
  by (simp add: Set_def worker_set_def Let_def split: option.split)

lemma GetContext_entry:
  "contexts s r = Some (Some ctx) \<Longrightarrow> GetContext baseCtx s r = (Some ctx, s)"
  by (simp add: GetContext_def worker_fetchCtx_def Let_def)

lemma GetContext_no_chain:
  "contexts s r = None \<or> contexts s r = Some None \<Longrightarrow>
   GetContext baseCtx s r =
     (Some (WithValue (WithCancel (Entry (allocated s)) baseCtx) cancelKey
              (CancelFunc (Entry (allocated s)))),
      s\<lparr>contexts := (contexts s)(r \<mapsto> Some (WithValue
                 (WithCancel (Entry (allocated s)) baseCtx) cancelKey
                 (CancelFunc (Entry (allocated s))))),
        allocated := Suc (allocated s)\<rparr>)"
  by (auto simp add: GetContext_def worker_fetchCtx_def Let_def)

lemma SetContext_absent: "contexts s r = None \<Longrightarrow> SetContext s r ctx = (None, s)"
  by (simp add: SetContext_def worker_setCtx_def)

lemma SetContext_present:
  "contexts s r = Some old \<Longrightarrow>
   SetContext s r ctx = (None, s\<lparr>contexts := (contexts s)(r \<mapsto> ctx)\<rparr>)"
  by (simp add: SetContext_def worker_setCtx_def)

lemma Evict_no_handle:
  assumes "contexts s r = None \<or> contexts s r = Some None \<or>
           (\<exists>ctx. contexts s r = Some (Some ctx) \<and> (\<forall>c. Value ctx cancelKey \<noteq> CancelFunc c))"
  shows "Evict s r = Some (None, s)"
  using assms by (auto simp add: Evict_def worker_kill_def Let_def split: val.split)

lemma Evict_handle:
  assumes "contexts s r = Some (Some ctx)" and "Value ctx cancelKey = CancelFunc c"
  shows "Evict s r =
           (if Done (insert c (cancelled s)) ctx
            then Some (None, s\<lparr>contexts := (contexts s)(r := None),
                                cancelled := insert c (cancelled s)\<rparr>)
            else None)"
  using assms by (simp add: Evict_def worker_kill_def Let_def)

subsection \<open>Calls about another request leave the entry alone\<close>

lemma Set_frame: "r' \<noteq> r \<Longrightarrow> contexts (snd (Set baseCtx s r' k v)) r = contexts s r"
  by (simp add: Set_def worker_set_def Let_def split: option.split)

lemma GetContext_frame:
  "r' \<noteq> r \<Longrightarrow> contexts (snd (GetContext baseCtx s r')) r = contexts s r"
  by (simp add: GetContext_def worker_fetchCtx_def Let_def split: option.split)

lemma SetContext_frame: "r' \<noteq> r \<Longrightarrow> contexts (snd (SetContext s r' ctx)) r = contexts s r"
  by (simp add: SetContext_def worker_setCtx_def split: option.split)

lemma Evict_frame:
  "r' \<noteq> r \<Longrightarrow> Evict s r' = Some (e, s') \<Longrightarrow> contexts s' r = contexts s r"
  by (auto simp add: Evict_def worker_kill_def Let_def split: option.splits val.splits if_splits)

lemma call_step_frame:
  assumes "call_request c \<noteq> r" and "call_step baseCtx s c = Some s'"
  shows "contexts s' r = contexts s r"
proof (cases c)
  case (CallEvict r')
  with assms obtain e where "r' \<noteq> r" and "Evict s r' = Some (e, s')" by auto
  then show ?thesis by (rule Evict_frame)
qed (use assms in \<open>auto simp add: Set_frame GetContext_frame SetContext_frame\<close>)

lemma serve_frame:
  "\<forall>c\<in>set cs. call_request c \<noteq> r \<Longrightarrow> serve baseCtx s cs = Some s' \<Longrightarrow>
   contexts s' r = contexts s r"
proof (induction cs arbitrary: s)
  case Nil
  then show ?case by simp
next
  case (Cons c cs)
  from Cons.prems(2) obtain s1 where s1: "call_step baseCtx s c = Some s1"
    and rest: "serve baseCtx s1 cs = Some s'"
    by (auto split: option.splits)
  from Cons.prems(1) have this_one: "call_request c \<noteq> r"
    and others: "\<forall>c\<in>set cs. call_request c \<noteq> r"
    by simp_all
  have "contexts s' r = contexts s1 r" by (rule Cons.IH [OF others rest])
  also have "contexts s1 r = contexts s r" by (rule call_step_frame [OF this_one s1])
  finally show ?case .
qed

subsection \<open>Calls that do not disturb a key keep its value\<close>

lemma call_step_keeps:
  assumes "\<not> disturbs r k c" and "call_step baseCtx s c = Some s'"
    and "contexts s r = Some (Some ctx)"
  shows "\<exists>ctx'. contexts s' r = Some (Some ctx') \<and> Value ctx' k = Value ctx k"
proof (cases c)
  case (CallGet r' k')
  with assms show ?thesis by simp
next
  case (CallSet r' k' v')
  show ?thesis
  proof (cases "r' = r")
    case True
    with assms CallSet show ?thesis by (auto simp add: Set_entry)
  next
    case False
    with assms CallSet show ?thesis by (auto simp add: Set_frame)
  qed
next
  case (CallGetContext r')
  show ?thesis
  proof (cases "r' = r")
    case True
    with assms CallGetContext show ?thesis by (auto simp add: GetContext_entry)
  next
    case False
    with assms CallGetContext show ?thesis by (auto simp add: GetContext_frame)
  qed
next
  case (CallSetContext r' c')
  with assms show ?thesis by (auto simp add: SetContext_frame)
next
  case (CallEvict r')
  with assms obtain e where "r' \<noteq> r" and "Evict s r' = Some (e, s')" by auto
  then have "contexts s' r = contexts s r" by (rule Evict_frame)
  with assms(3) show ?thesis by simp
qed

lemma serve_keeps:
  "\<forall>c\<in>set cs. \<not> disturbs r k c \<Longrightarrow> serve baseCtx s cs = Some s' \<Longrightarrow>
   contexts s r = Some (Some ctx) \<Longrightarrow>
   \<exists>ctx'. contexts s' r = Some (Some ctx') \<and> Value ctx' k = Value ctx k"
proof (induction cs arbitrary: s ctx)
  case Nil
  then show ?case by simp
next
  case (Cons c cs)
  from Cons.prems(2) obtain s1 where s1: "call_step baseCtx s c = Some s1"
    and rest: "serve baseCtx s1 cs = Some s'"
    by (auto split: option.splits)
  from Cons.prems(1) have nd: "\<not> disturbs r k c" and nds: "\<forall>c\<in>set cs. \<not> disturbs r k c"
    by simp_all
  from call_step_keeps [OF nd s1 Cons.prems(3)]
  obtain ctx1 where c1: "contexts s1 r = Some (Some ctx1)" and v1: "Value ctx1 k = Value ctx k"
    by blast
  from Cons.IH [OF nds rest c1] v1 show ?case by auto
qed

lemma call_step_same_chain:
  assumes "\<not> replaces r c" and "call_step baseCtx s c = Some s'"
    and "contexts s r = Some (Some ctx)"
  shows "contexts s' r = Some (Some ctx)"
proof (cases c)
  case (CallGet r' k')
  with assms show ?thesis by simp
next
  case (CallSet r' k' v')
  with assms show ?thesis by (auto simp add: Set_frame)
next
  case (CallGetContext r')
  show ?thesis
  proof (cases "r' = r")
    case True
    with assms CallGetContext show ?thesis by (auto simp add: GetContext_entry)
  next
    case False
    with assms CallGetContext show ?thesis by (auto simp add: GetContext_frame)
  qed
next
  case (CallSetContext r' c')
  with assms show ?thesis by (auto simp add: SetContext_frame)
next
  case (CallEvict r')
  with assms obtain e where "r' \<noteq> r" and "Evict s r' = Some (e, s')" by auto
  then have "contexts s' r = contexts s r" by (rule Evict_frame)
  with assms(3) show ?thesis by simp
qed

lemma serve_same_chain:
  "\<forall>c\<in>set cs. \<not> replaces r c \<Longrightarrow> serve baseCtx s cs = Some s' \<Longrightarrow>
   contexts s r = Some (Some ctx) \<Longrightarrow> contexts s' r = Some (Some ctx)"
proof (induction cs arbitrary: s)
  case Nil
  then show ?case by simp
next
  case (Cons c cs)
  from Cons.prems(2) obtain s1 where s1: "call_step baseCtx s c = Some s1"
    and rest: "serve baseCtx s1 cs = Some s'"
    by (auto split: option.splits)
  from Cons.prems(1) have this_one: "\<not> replaces r c"
    and others: "\<forall>c\<in>set cs. \<not> replaces r c"
    by simp_all
  have "contexts s1 r = Some (Some ctx)"
    by (rule call_step_same_chain [OF this_one s1 Cons.prems(3)])
  then show ?case by (rule Cons.IH [OF others rest])
qed

lemma GetContext_stores:
  "\<exists>ctx. fst (GetContext baseCtx s r) = Some ctx \<and>
         contexts (snd (GetContext baseCtx s r)) r = Some (Some ctx)"
proof -
  consider (chain) ctx where "contexts s r = Some (Some ctx)"
    | (none) "contexts s r = None \<or> contexts s r = Some None"
    by (cases "contexts s r") auto
  then show ?thesis
  proof cases
    case chain
    then show ?thesis by (simp add: GetContext_entry)
  next
    case none
    show ?thesis by (simp add: GetContext_no_chain [OF none])
  qed
qed

lemma Set_binds:
  assumes "k \<noteq> cancelKey \<or> (\<exists>ctx. contexts s r = Some (Some ctx))" and "key_eq k k"
  shows "\<exists>ctx'. contexts (snd (Set baseCtx s r k v)) r = Some (Some ctx') \<and> Value ctx' k = v"
proof -
  consider (chain) ctx where "contexts s r = Some (Some ctx)"
    | (none) "contexts s r = None \<or> contexts s r = Some None"
    by (cases "contexts s r") auto
  then show ?thesis
  proof cases
    case chain
    with assms(2) show ?thesis by (simp add: Set_entry)
  next
    case none
    with assms(1) have "k \<noteq> cancelKey" by auto
    with assms(2) show ?thesis by (simp add: Set_no_chain [OF none])
  qed
qed

lemma Set_serve_Get:
  assumes "w \<noteq> NilV" and "k \<noteq> cancelKey \<or> (\<exists>ctx. contexts t r = Some (Some ctx))"
    and "\<forall>c\<in>set cs. \<not> disturbs r k c"
    and "serve baseCtx (snd (Set baseCtx t r k w)) cs = Some t'"
    and "key_eq k k"
  shows "Get t' r k = Inr w"
proof -
  from Set_binds [OF assms(2,5), of baseCtx w]
  obtain ctx1 where "contexts (snd (Set baseCtx t r k w)) r = Some (Some ctx1)"
    and "Value ctx1 k = w" by blast
  with serve_keeps [OF assms(3,4)]
  obtain ctx2 where "contexts t' r = Some (Some ctx2)" and "Value ctx2 k = w"
    by fastforce
  with assms(1) show ?thesis by (simp add: Get_entry)
qed

section \<open>Set, then Get\<close>

text \<open>
  C1 (as amended). Let \<^verbatim>\<open>Set(id, k, v)\<close> be called with a non-nil \<open>v\<close> and a key \<open>k\<close>
  that is equal to itself under \<^verbatim>\<open>==\<close> (it holds no NaN), where \<open>k\<close> is not the
  internal key \<open>cancelKey\<close> or \<open>id\<close> already has a chain. After any calls that are not
  a \<^verbatim>\<open>Set\<close> of the same key, a \<^verbatim>\<open>SetContext\<close> or an \<^verbatim>\<open>Evict\<close> of \<open>id\<close>, and that
  all return, \<^verbatim>\<open>Get(id, k)\<close> returns \<open>v\<close>. After \<^verbatim>\<open>Set(id, k, v1)\<close> and then
  \<^verbatim>\<open>Set(id, k, v2)\<close> with a non-nil \<open>v2\<close> and such a key, under the same condition on
  the calls in between, \<^verbatim>\<open>Get(id, k)\<close> returns \<open>v2\<close>, also for the internal key.
\<close>

theorem Set_then_Get:
  "(v \<noteq> NilV \<and> key_eq k k \<and>
    (k \<noteq> cancelKey \<or> (\<exists>ctx. contexts s r = Some (Some ctx))) \<and>
    (\<forall>c\<in>set cs. \<not> disturbs r k c) \<and>
    serve baseCtx (snd (Set baseCtx s r k v)) cs = Some s' \<longrightarrow>
      Get s' r k = Inr v) \<and>
   (v2 \<noteq> NilV \<and> key_eq k k \<and> (\<forall>c\<in>set cs. \<not> disturbs r k c) \<and>
    serve baseCtx (snd (Set baseCtx (snd (Set baseCtx s r k v1)) r k v2)) cs = Some s'' \<longrightarrow>
      Get s'' r k = Inr v2)"
  using Set_serve_Get [of v k s r cs baseCtx s']
    Set_serve_Get [of v2 k "snd (Set baseCtx s r k v1)" r cs baseCtx s'']
    Set_makes_chain [of baseCtx s r k v1]
  by blast

theorem Set_then_Get_witness:
  "(\<exists>s'. serve started_ctx
            (snd (Set started_ctx started_store 0 (OtherK ''user'') (Other ''alice'')))
            [CallSet 0 (OtherK ''id'') (Other ''42''), CallGetContext 0,
             CallSet 1 (OtherK ''user'') (Other ''bob''), CallEvict 1,
             CallGet 0 (OtherK ''id'')] = Some s' \<and>
         Get s' 0 (OtherK ''user'') = Inr (Other ''alice'')) \<and>
   Get (snd (Set started_ctx
          (snd (Set started_ctx started_store 0 (IntK 1) (Other ''first'')))
          0 (IntK 1) (Other ''second''))) 0 (IntK 1) = Inr (Other ''second'')"
proof -
  let ?k = "OtherK ''user'' :: string key"
  let ?v = "Other ''alice'' :: string val"
  let ?cs = "[CallSet 0 (OtherK ''id'') (Other ''42''), CallGetContext 0,
              CallSet 1 (OtherK ''user'') (Other ''bob''), CallEvict 1,
              CallGet 0 (OtherK ''id'')] :: (nat, string, string) call list"
  have k: "?k \<noteq> cancelKey" by (simp add: cancelKey_def)
  have kk: "key_eq ?k ?k" by simp
  have cs: "\<forall>c\<in>set ?cs. \<not> disturbs 0 ?k c" by simp
  obtain s' where run: "serve started_ctx (snd (Set started_ctx started_store 0 ?k ?v)) ?cs = Some s'"
    by (simp add: backdrop_defs)
  have "Get s' 0 ?k = Inr ?v"
    using Set_then_Get [of ?v ?k started_store 0 ?cs started_ctx s'] k kk cs run by blast
  with run have first: "\<exists>s'. serve started_ctx (snd (Set started_ctx started_store 0 ?k ?v)) ?cs = Some s'
      \<and> Get s' 0 ?k = Inr ?v"
    by blast
  let ?t = "snd (Set started_ctx (snd (Set started_ctx started_store 0 (IntK 1) (Other ''first'')))
          (0::nat) (IntK 1) (Other ''second''))"
  have "serve started_ctx ?t [] = Some ?t" by simp
  then have "Get ?t 0 (IntK 1) = Inr (Other ''second'')"
    using Set_then_Get [of _ "IntK 1" started_store 0 "[]" started_ctx _ "Other ''second''"
        "Other ''first''" ?t]
    by simp
  with first show ?thesis by blast
qed

text \<open>
  The claim as stated fails in four ways. On a request without a chain, a value set
  under the key \<^verbatim>\<open>1\<close> lies below the cancel function the worker stores under the same
  key, so \<^verbatim>\<open>Get\<close> returns that function. A \<^verbatim>\<open>nil\<close> value makes \<^verbatim>\<open>Get\<close> return
  \<^verbatim>\<open>ErrGettingFromBackdrop\<close>. A \<^verbatim>\<open>SetContext\<close> between the two calls replaces the
  chain. And a value set under a NaN key is found by no lookup, since the key is not
  equal to itself.
\<close>

theorem Set_then_Get_counterexample:
  "Get (snd (Set started_ctx started_store 0 cancelKey (Other ''v''))) 0 cancelKey
     = Inr (CancelFunc (Entry 0)) \<and>
   Get (snd (Set started_ctx started_store 0 cancelKey (Other ''v''))) 0 cancelKey
     \<noteq> Inr (Other ''v'') \<and>
   fst (Set started_ctx started_store 0 (OtherK ''user'') NilV) = None \<and>
   Get (snd (Set started_ctx started_store 0 (OtherK ''user'') NilV)) 0 (OtherK ''user'')
     = Inl ErrGettingFromBackdrop \<and>
   Get (snd (SetContext
          (snd (Set started_ctx started_store 0 (OtherK ''user'') (Other ''alice'')))
          0 (Some Background))) 0 (OtherK ''user'')
     = Inl ErrGettingFromBackdrop \<and>
   fst (Set started_ctx started_store 0 (NaNK ''NaN'') (Other ''v'')) = None \<and>
   Get (snd (Set started_ctx started_store 0 (NaNK ''NaN'') (Other ''v''))) 0 (NaNK ''NaN'')
     = Inl ErrGettingFromBackdrop"
  by (simp add: backdrop_defs)

section \<open>When Get fails\<close>

text \<open>
  C2 (as amended). \<^verbatim>\<open>Get(id, k)\<close> returns \<^verbatim>\<open>ErrGettingFromBackdrop\<close> exactly when no
  chain is stored for \<open>id\<close> (the map has no entry for it, or the entry holds \<^verbatim>\<open>nil\<close>)
  or the stored chain resolves \<open>k\<close> to \<^verbatim>\<open>nil\<close>; otherwise it returns the resolved
  value. After \<^verbatim>\<open>Set(id, k, nil)\<close>, \<^verbatim>\<open>Get(id, k)\<close> returns the error when \<open>k\<close> is not the
  internal key \<open>cancelKey\<close> or \<open>id\<close> had a chain before the \<^verbatim>\<open>Set\<close>.
\<close>

theorem Get_NotFound_iff:
  "(Get s r k = Inl ErrGettingFromBackdrop \<longleftrightarrow>
      contexts s r = None \<or> contexts s r = Some None \<or>
      (\<exists>ctx. contexts s r = Some (Some ctx) \<and> Value ctx k = NilV)) \<and>
   (\<forall>ctx. contexts s r = Some (Some ctx) \<and> Value ctx k \<noteq> NilV \<longrightarrow>
      Get s r k = Inr (Value ctx k)) \<and>
   (k \<noteq> cancelKey \<or> (\<exists>ctx. contexts s r = Some (Some ctx)) \<longrightarrow>
      Get (snd (Set baseCtx s r k NilV)) r k = Inl ErrGettingFromBackdrop)"
proof -
  consider (chain) ctx where "contexts s r = Some (Some ctx)"
    | (none) "contexts s r = None \<or> contexts s r = Some None"
    by (cases "contexts s r") auto
  then show ?thesis
  proof cases
    case chain
    then show ?thesis by (simp add: Get_entry Set_entry Value_not_self)
  next
    case none
    have "Get s r k = Inl ErrGettingFromBackdrop"
      using none Get_absent [of s r k] Get_nil_entry [of s r k] by blast
    moreover have "Get (snd (Set baseCtx s r k NilV)) r k = Inl ErrGettingFromBackdrop"
      if "k \<noteq> cancelKey"
      using that by (simp add: Set_no_chain [OF none] Get_entry Value_not_self)
    ultimately show ?thesis using none by auto
  qed
qed

theorem Get_NotFound_iff_witness:
  "Get started_store 0 (OtherK ''user'') = Inl ErrGettingFromBackdrop \<and>
   Get (snd (Set started_ctx started_store 0 (OtherK ''user'') (Other ''alice'')))
     0 (OtherK ''user'') = Inr (Other ''alice'') \<and>
   Get (snd (Set started_ctx started_store 0 (OtherK ''user'') NilV))
     0 (OtherK ''user'') = Inl ErrGettingFromBackdrop"
proof -
  let ?k = "OtherK ''user'' :: string key"
  let ?s1 = "snd (Set started_ctx started_store 0 ?k (Other ''alice''))"
  let ?c1 = "WithValue (WithValue (WithCancel (Entry 0) started_ctx) ?k (Other ''alice''))
               cancelKey (CancelFunc (Entry 0))"
  have none: "contexts started_store (0::nat) = None" by (simp add: backdrop_defs)
  have chain: "contexts ?s1 0 = Some (Some ?c1)" by (simp add: backdrop_defs)
  have val: "Value ?c1 ?k = Other ''alice''" by (simp add: cancelKey_def)
  have k: "?k \<noteq> cancelKey" by (simp add: cancelKey_def)
  have "Get started_store 0 ?k = Inl ErrGettingFromBackdrop"
    using Get_NotFound_iff [of started_store 0 ?k started_ctx] none by blast
  moreover have "Get ?s1 0 ?k = Inr (Other ''alice'')"
    using Get_NotFound_iff [of ?s1 0 ?k started_ctx] chain val by auto
  moreover have "Get (snd (Set started_ctx started_store 0 ?k NilV)) 0 ?k
      = Inl ErrGettingFromBackdrop"
    using Get_NotFound_iff [of started_store 0 ?k started_ctx] k by blast
  ultimately show ?thesis by blast
qed

text \<open>
  The claim as stated fails after \<^verbatim>\<open>Set(id, 1, nil)\<close> on a request without a chain:
  the \<^verbatim>\<open>Set\<close> succeeds and \<^verbatim>\<open>Get(id, 1)\<close> returns the cancel function stored above the
  \<^verbatim>\<open>nil\<close>.
\<close>

theorem Get_NotFound_counterexample:
  "fst (Set started_ctx started_store 0 cancelKey NilV) = None \<and>
   Get (snd (Set started_ctx started_store 0 cancelKey NilV)) 0 cancelKey
     = Inr (CancelFunc (Entry 0)) \<and>
   Get (snd (Set started_ctx started_store 0 cancelKey NilV)) 0 cancelKey
     \<noteq> Inl ErrGettingFromBackdrop"
  by (simp add: backdrop_defs)

section \<open>Evict\<close>

text \<open>
  C3 (as amended). For every identity whose stored chain resolves the internal key
  \<open>cancelKey\<close> to a cancel function whose call leaves that chain cancelled,
  \<^verbatim>\<open>Evict(id)\<close> returns the \<^verbatim>\<open>nil\<close> error, the cancellation has been fired, the entry
  is removed, and \<^verbatim>\<open>Get(id, k)\<close> returns \<^verbatim>\<open>ErrGettingFromBackdrop\<close> for every key
  \<open>k\<close>.
\<close>

theorem Evict_removes_entry:
  assumes "contexts s r = Some (Some ctx)"
    and "Value ctx cancelKey = CancelFunc c"
    and "Done (insert c (cancelled s)) ctx"
  shows "\<exists>s'. Evict s r = Some (None, s') \<and> c \<in> cancelled s' \<and> Done (cancelled s') ctx \<and>
              contexts s' r = None \<and> (\<forall>k. Get s' r k = Inl ErrGettingFromBackdrop)"
proof -
  let ?s' = "s\<lparr>contexts := (contexts s)(r := None), cancelled := insert c (cancelled s)\<rparr>"
  have "Evict s r = Some (None, ?s')"
    using assms by (simp add: Evict_handle)
  moreover have "contexts ?s' r = None" by simp
  moreover from this have "Get ?s' r k = Inl ErrGettingFromBackdrop" for k
    by (rule Get_absent)
  ultimately show ?thesis using assms(3) by auto
qed

text \<open>
  The chains the worker creates satisfy the two conditions on the handle, and a
  \<^verbatim>\<open>Set\<close> of any key but \<open>cancelKey\<close> keeps them.
\<close>

lemma created_chain_handle:
  "Value (WithValue (WithCancel c baseCtx) cancelKey (CancelFunc c)) cancelKey = CancelFunc c \<and>
   Done (insert c C) (WithValue (WithCancel c baseCtx) cancelKey (CancelFunc c)) \<and>
   Value (WithValue (WithValue (WithCancel c baseCtx) k v) cancelKey (CancelFunc c)) cancelKey
     = CancelFunc c \<and>
   Done (insert c C) (WithValue (WithValue (WithCancel c baseCtx) k v) cancelKey (CancelFunc c))"
  by simp

lemma Set_keeps_handle:
  "k \<noteq> cancelKey \<Longrightarrow>
   Value (WithValue ctx k v) cancelKey = Value ctx cancelKey \<and>
   Done C (WithValue ctx k v) = Done C ctx"
  by simp

theorem Evict_removes_entry_witness:
  "\<exists>s'. Evict (snd (Set started_ctx started_store 0 (OtherK ''user'') (Other ''alice''))) 0
           = Some (None, s') \<and>
        Entry 0 \<in> cancelled s' \<and> contexts s' 0 = None \<and>
        Get s' 0 (OtherK ''user'') = Inl ErrGettingFromBackdrop"
proof -
  let ?k = "OtherK ''user'' :: string key"
  let ?s1 = "snd (Set started_ctx started_store (0::nat) ?k (Other ''alice''))"
  let ?c1 = "WithValue (WithValue (WithCancel (Entry 0) started_ctx) ?k (Other ''alice''))
               cancelKey (CancelFunc (Entry 0))"
  have chain: "contexts ?s1 0 = Some (Some ?c1)" by (simp add: backdrop_defs)
  have handle: "Value ?c1 cancelKey = CancelFunc (Entry 0)" by simp
  have fires: "Done (insert (Entry 0) (cancelled ?s1)) ?c1" by simp
  from Evict_removes_entry [OF chain handle fires] show ?thesis by blast
qed

text \<open>
  The claim as stated fails for a stored entry whose chain has no cancel function
  under \<open>cancelKey\<close>: \<^verbatim>\<open>Evict\<close> returns the \<^verbatim>\<open>nil\<close> error, nothing is cancelled, the
  entry stays and \<^verbatim>\<open>Get\<close> still returns the value. Such a chain is one installed with
  \<^verbatim>\<open>SetContext\<close>, or one on which a value has been set under the key \<^verbatim>\<open>1\<close>.
\<close>

theorem Evict_removes_entry_counterexample:
  "Evict (snd (SetContext (snd (GetContext started_ctx started_store 0)) 0
            (Some (WithValue Background (OtherK ''key'') (Other ''value''))))) 0
     = Some (None, snd (SetContext (snd (GetContext started_ctx started_store 0)) 0
            (Some (WithValue Background (OtherK ''key'') (Other ''value''))))) \<and>
   cancelled (snd (SetContext (snd (GetContext started_ctx started_store 0)) 0
            (Some (WithValue Background (OtherK ''key'') (Other ''value''))))) = {} \<and>
   Get (snd (SetContext (snd (GetContext started_ctx started_store 0)) 0
            (Some (WithValue Background (OtherK ''key'') (Other ''value'')))))
     0 (OtherK ''key'') = Inr (Other ''value'') \<and>
   Evict (snd (Set started_ctx (snd (Set started_ctx started_store 0 (OtherK ''user'')
            (Other ''alice''))) 0 (IntK 1) (Other ''one''))) 0
     = Some (None, snd (Set started_ctx (snd (Set started_ctx started_store 0 (OtherK ''user'')
            (Other ''alice''))) 0 (IntK 1) (Other ''one''))) \<and>
   Get (snd (Set started_ctx (snd (Set started_ctx started_store 0 (OtherK ''user'')
            (Other ''alice''))) 0 (IntK 1) (Other ''one''))) 0 (OtherK ''user'')
     = Inr (Other ''alice'')"
  by (simp add: backdrop_defs)

text \<open>
  C5. \<^verbatim>\<open>Evict(id)\<close> returns the \<^verbatim>\<open>nil\<close> error and leaves the store, the map included,
  as it was when there is no entry for \<open>id\<close>, and when the entry's chain has no cancel
  function under \<open>cancelKey\<close> (or the entry holds \<^verbatim>\<open>nil\<close>): the entry stays in place.
\<close>

theorem Evict_noop:
  assumes "contexts s r = None \<or> contexts s r = Some None \<or>
           (\<exists>ctx. contexts s r = Some (Some ctx) \<and> (\<forall>c. Value ctx cancelKey \<noteq> CancelFunc c))"
  shows "Evict s r = Some (None, s)"
  using assms by (rule Evict_no_handle)

theorem Evict_noop_witness:
  "Evict started_store 0 = Some (None, started_store) \<and>
   Evict (snd (SetContext (snd (GetContext started_ctx started_store 0)) 0
            (Some (WithValue Background (OtherK ''key'') (Other ''value''))))) 0
     = Some (None, snd (SetContext (snd (GetContext started_ctx started_store 0)) 0
            (Some (WithValue Background (OtherK ''key'') (Other ''value'')))))"
proof -
  let ?c = "WithValue Background (OtherK ''key'') (Other ''value'') :: (string, string) ctx"
  let ?s2 = "snd (SetContext (snd (GetContext started_ctx started_store (0::nat))) 0 (Some ?c))"
  have none: "contexts started_store (0::nat) = None" by (simp add: backdrop_defs)
  have chain: "contexts ?s2 0 = Some (Some ?c)" by (simp add: backdrop_defs)
  have no_handle: "\<forall>c. Value ?c cancelKey \<noteq> CancelFunc c" by (simp add: cancelKey_def)
  have "Evict started_store (0::nat) = Some (None, started_store)"
    using Evict_noop [of started_store 0] none by blast
  moreover have "Evict ?s2 0 = Some (None, ?s2)"
    using Evict_noop [of ?s2 0] chain no_handle by blast
  ultimately show ?thesis by blast
qed

section \<open>SetContext on a request without an entry\<close>

text \<open>
  C4. For every identity with no entry and every context, \<^verbatim>\<open>SetContext(id, c)\<close>
  returns the \<^verbatim>\<open>nil\<close> error and leaves the store unchanged, creating no entry; a
  following \<^verbatim>\<open>Get(id, k)\<close> returns \<^verbatim>\<open>ErrGettingFromBackdrop\<close> for every key.
\<close>

theorem SetContext_absent_noop:
  assumes "contexts s r = None"
  shows "SetContext s r ctx = (None, s) \<and>
         contexts (snd (SetContext s r ctx)) r = None \<and>
         (\<forall>k. Get (snd (SetContext s r ctx)) r k = Inl ErrGettingFromBackdrop)"
proof -
  have "SetContext s r ctx = (None, s)"
    using assms by (rule SetContext_absent)
  moreover have "Get s r k = Inl ErrGettingFromBackdrop" for k
    using assms by (rule Get_absent)
  ultimately show ?thesis using assms by simp
qed

theorem SetContext_absent_noop_witness:
  "SetContext started_store 0 (Some (WithValue Background (OtherK ''key'') (Other ''value'')))
     = (None, started_store) \<and>
   Get (snd (SetContext started_store 0
          (Some (WithValue Background (OtherK ''key'') (Other ''value'')))))
     0 (OtherK ''key'') = Inl ErrGettingFromBackdrop"
proof -
  have none: "contexts started_store (0::nat) = None" by (simp add: backdrop_defs)
  from SetContext_absent_noop [OF none] show ?thesis by blast
qed

section \<open>GetContext\<close>

text \<open>
  C6 (as amended). \<^verbatim>\<open>GetContext(id)\<close> always replies, with a non-nil chain that is
  then the stored chain of \<open>id\<close>. On an identity without a stored chain the chain is
  a new one: a \<^verbatim>\<open>WithCancel\<close> child of the base context holding its own cancel
  function under \<open>cancelKey\<close>, cancelled once that function is called. A second call
  returns the same chain and leaves the store as it finds it, after any calls in
  between that are not a \<^verbatim>\<open>Set\<close>, a \<^verbatim>\<open>SetContext\<close> or an \<^verbatim>\<open>Evict\<close> of \<open>id\<close> and
  that all return.
\<close>

theorem GetContext_total_idempotent:
  "(\<exists>ctx. fst (GetContext baseCtx s r) = Some ctx \<and>
          contexts (snd (GetContext baseCtx s r)) r = Some (Some ctx)) \<and>
   (contexts s r = None \<or> contexts s r = Some None \<longrightarrow>
      fst (GetContext baseCtx s r) =
        Some (WithValue (WithCancel (Entry (allocated s)) baseCtx) cancelKey
                (CancelFunc (Entry (allocated s)))) \<and>
      (\<forall>C. Done (insert (Entry (allocated s)) C)
             (WithValue (WithCancel (Entry (allocated s)) baseCtx) cancelKey
                (CancelFunc (Entry (allocated s)))))) \<and>
   ((\<forall>c\<in>set cs. \<not> replaces r c) \<and>
    serve baseCtx (snd (GetContext baseCtx s r)) cs = Some s' \<longrightarrow>
      GetContext baseCtx s' r = (fst (GetContext baseCtx s r), s'))"
proof -
  obtain ctx where reply: "fst (GetContext baseCtx s r) = Some ctx"
    and stored: "contexts (snd (GetContext baseCtx s r)) r = Some (Some ctx)"
    using GetContext_stores [of baseCtx s r] by blast
  have fresh: "fst (GetContext baseCtx s r) =
        Some (WithValue (WithCancel (Entry (allocated s)) baseCtx) cancelKey
                (CancelFunc (Entry (allocated s))))"
    if "contexts s r = None \<or> contexts s r = Some None"
    by (simp add: GetContext_no_chain [OF that])
  have again: "GetContext baseCtx s' r = (fst (GetContext baseCtx s r), s')"
    if "\<forall>c\<in>set cs. \<not> replaces r c"
      and "serve baseCtx (snd (GetContext baseCtx s r)) cs = Some s'"
  proof -
    have "contexts s' r = Some (Some ctx)"
      by (rule serve_same_chain [OF that stored])
    then show ?thesis by (simp add: GetContext_entry reply)
  qed
  from reply stored fresh again show ?thesis by simp
qed

theorem GetContext_total_idempotent_witness:
  "fst (GetContext started_ctx started_store 0) =
     Some (WithValue (WithCancel (Entry 0) started_ctx) cancelKey (CancelFunc (Entry 0))) \<and>
   (\<exists>s'. serve started_ctx (snd (GetContext started_ctx started_store 0))
            [CallGet 0 (OtherK ''user''), CallSet 1 (OtherK ''user'') (Other ''bob''),
             CallGetContext 0] = Some s' \<and>
         GetContext started_ctx s' 0 =
           (Some (WithValue (WithCancel (Entry 0) started_ctx) cancelKey
                    (CancelFunc (Entry 0))), s'))"
proof -
  let ?cs = "[CallGet 0 (OtherK ''user''), CallSet 1 (OtherK ''user'') (Other ''bob''),
              CallGetContext 0] :: (nat, string, string) call list"
  let ?c0 = "WithValue (WithCancel (Entry 0) started_ctx) cancelKey (CancelFunc (Entry 0))"
  have none: "contexts started_store (0::nat) = None" by (simp add: backdrop_defs)
  have zero: "allocated (started_store :: (nat, string, string) store) = 0"
    by (simp add: backdrop_defs)
  have quiet: "\<forall>c\<in>set ?cs. \<not> replaces 0 c" by simp
  obtain s' where run: "serve started_ctx (snd (GetContext started_ctx started_store 0)) ?cs
      = Some s'"
    by (simp add: backdrop_defs)
  note inst = GetContext_total_idempotent [of started_ctx started_store 0 ?cs s']
  from inst none zero have first: "fst (GetContext started_ctx started_store 0) = Some ?c0"
    by simp
  from inst quiet run have "GetContext started_ctx s' 0
      = (fst (GetContext started_ctx started_store 0), s')"
    by blast
  with first run show ?thesis by auto
qed

text \<open>
  The claim as stated fails when a \<^verbatim>\<open>SetContext\<close> comes between the two calls, as in
  the README's example, which stores the chain it got with one more value on it: the
  second call returns the stored chain, which resolves the new key where the first
  chain did not.
\<close>

theorem GetContext_idempotent_counterexample:
  "fst (GetContext started_ctx started_store 0) =
     Some (WithValue (WithCancel (Entry 0) started_ctx) cancelKey (CancelFunc (Entry 0))) \<and>
   fst (GetContext started_ctx
         (snd (SetContext (snd (GetContext started_ctx started_store 0)) 0
            (Some (WithValue
               (WithValue (WithCancel (Entry 0) started_ctx) cancelKey (CancelFunc (Entry 0)))
               (OtherK ''key'') (Other ''value''))))) 0) =
     Some (WithValue
            (WithValue (WithCancel (Entry 0) started_ctx) cancelKey (CancelFunc (Entry 0)))
            (OtherK ''key'') (Other ''value'')) \<and>
   Value (WithValue
            (WithValue (WithCancel (Entry 0) started_ctx) cancelKey (CancelFunc (Entry 0)))
            (OtherK ''key'') (Other ''value'')) (OtherK ''key'') = Other ''value'' \<and>
   Value (WithValue (WithCancel (Entry 0) started_ctx) cancelKey (CancelFunc (Entry 0)))
     (OtherK ''key'') = NilV"
  by (simp add: backdrop_defs)

section \<open>Set\<close>

text \<open>
  C7. For every identity, key and value, the set branch of the worker replies with a
  non-nil chain, and \<^verbatim>\<open>Set\<close> therefore returns the \<^verbatim>\<open>nil\<close> error: its
  \<^verbatim>\<open>ErrSettingToBackdrop\<close> branch is never taken.
\<close>

theorem Set_always_succeeds:
  "fst (Set baseCtx s r k v) = None \<and> (\<exists>ctx. fst (worker_set baseCtx s r k v) = Some ctx)"
proof -
  have "\<exists>ctx. fst (worker_set baseCtx s r k v) = Some ctx"
    by (simp add: worker_set_def Let_def split: option.split)
  then obtain ctx where c: "fst (worker_set baseCtx s r k v) = Some ctx"
    by blast
  then have "fst (Set baseCtx s r k v) = None"
    by (cases "worker_set baseCtx s r k v") (simp add: Set_def)
  with c show ?thesis by blast
qed

section \<open>The internal key shares the callers' key space\<close>

text \<open>
  C8. \<open>cancelKey\<close> is the \<^verbatim>\<open>int\<close> 1, a key any caller can pass. For every identity
  without an entry, after \<^verbatim>\<open>GetContext(id)\<close>, and likewise after a \<^verbatim>\<open>Set\<close> of any key
  and value, \<^verbatim>\<open>Get(id, 1)\<close> returns a non-nil value and no error: the cancel function
  of the new chain.
\<close>

theorem Get_cancelKey_fresh:
  assumes "contexts s r = None \<or> contexts s r = Some None"
  shows "(cancelKey :: 'k key) = IntK 1 \<and>
         Get (snd (GetContext baseCtx s r)) r (IntK 1 :: 'k key)
           = Inr (CancelFunc (Entry (allocated s))) \<and>
         Get (snd (Set baseCtx s r k v)) r (IntK 1)
           = Inr (CancelFunc (Entry (allocated s)))"
  by (simp add: GetContext_no_chain [OF assms] Set_no_chain [OF assms] Get_entry cancelKey_def)

theorem Get_cancelKey_fresh_witness:
  "Get (snd (GetContext started_ctx started_store 0)) 0 (IntK 1) = Inr (CancelFunc (Entry 0)) \<and>
   Get (snd (Set started_ctx started_store 0 (OtherK ''user'') (Other ''alice''))) 0 (IntK 1)
     = Inr (CancelFunc (Entry 0))"
proof -
  have none: "contexts started_store (0::nat) = None" by (simp add: backdrop_defs)
  have "allocated (started_store :: (nat, string, string) store) = 0"
    by (simp add: backdrop_defs)
  with Get_cancelKey_fresh [of started_store 0 started_ctx "OtherK ''user''" "Other ''alice''"]
    none
  show ?thesis by metis
qed

text \<open>
  C9 (as amended). For every identity whose entry holds a chain and every value \<open>w\<close>
  that is not a cancel function, \<^verbatim>\<open>Set(id, 1, w)\<close> succeeds and puts \<open>w\<close> above the cancel function. Then
  \<^verbatim>\<open>Evict(id)\<close> returns the \<^verbatim>\<open>nil\<close> error and changes nothing: no scope is cancelled
  and the entry stays, so \<^verbatim>\<open>Get(id, 1)\<close> returns \<open>w\<close> (the error for a \<^verbatim>\<open>nil\<close> \<open>w\<close>) and
  \<^verbatim>\<open>Get\<close> of any other key returns what it returned before.
\<close>

theorem Set_cancelKey_shadows:
  assumes "contexts s r = Some (Some ctx)" and "\<forall>c. w \<noteq> CancelFunc c"
  shows "fst (Set baseCtx s r cancelKey w) = None \<and>
         contexts (snd (Set baseCtx s r cancelKey w)) r
           = Some (Some (WithValue ctx cancelKey w)) \<and>
         Evict (snd (Set baseCtx s r cancelKey w)) r
           = Some (None, snd (Set baseCtx s r cancelKey w)) \<and>
         Get (snd (Set baseCtx s r cancelKey w)) r cancelKey
           = (if w = NilV then Inl ErrGettingFromBackdrop else Inr w) \<and>
         (\<forall>k. k \<noteq> cancelKey \<longrightarrow> Get (snd (Set baseCtx s r cancelKey w)) r k = Get s r k)"
proof -
  let ?s' = "s\<lparr>contexts := (contexts s)(r \<mapsto> Some (WithValue ctx cancelKey w))\<rparr>"
  have set: "Set baseCtx s r cancelKey w = (None, ?s')"
    using assms(1) by (rule Set_entry)
  have c: "contexts ?s' r = Some (Some (WithValue ctx cancelKey w))" by simp
  have "\<forall>c. Value (WithValue ctx cancelKey w) cancelKey \<noteq> CancelFunc c"
    using assms(2) by simp
  with c have ev: "Evict ?s' r = Some (None, ?s')"
    using Evict_no_handle [of ?s' r] by blast
  have g1: "Get ?s' r cancelKey = (if w = NilV then Inl ErrGettingFromBackdrop else Inr w)"
    using Get_entry [OF c, of cancelKey] by simp
  have g2: "Get ?s' r k = Get s r k" if "k \<noteq> cancelKey" for k
    using that Get_entry [OF c, of k] Get_entry [OF assms(1), of k] by simp
  show ?thesis using set c ev g1 g2 by simp
qed

theorem Set_cancelKey_shadows_witness:
  "Evict (snd (Set started_ctx (snd (Set started_ctx started_store 0 (OtherK ''user'')
            (Other ''alice''))) 0 cancelKey (Other ''x''))) 0
     = Some (None, snd (Set started_ctx (snd (Set started_ctx started_store 0 (OtherK ''user'')
            (Other ''alice''))) 0 cancelKey (Other ''x''))) \<and>
   Get (snd (Set started_ctx (snd (Set started_ctx started_store 0 (OtherK ''user'')
            (Other ''alice''))) 0 cancelKey (Other ''x''))) 0 cancelKey = Inr (Other ''x'') \<and>
   Get (snd (Set started_ctx (snd (Set started_ctx started_store 0 (OtherK ''user'')
            (Other ''alice''))) 0 cancelKey (Other ''x''))) 0 (OtherK ''user'')
     = Inr (Other ''alice'')"
proof -
  let ?k = "OtherK ''user'' :: string key"
  let ?s1 = "snd (Set started_ctx started_store (0::nat) ?k (Other ''alice''))"
  let ?c1 = "WithValue (WithValue (WithCancel (Entry 0) started_ctx) ?k (Other ''alice''))
               cancelKey (CancelFunc (Entry 0))"
  let ?w = "Other ''x'' :: string val"
  have chain: "contexts ?s1 0 = Some (Some ?c1)" by (simp add: backdrop_defs)
  have w: "\<forall>c. ?w \<noteq> CancelFunc c" by simp
  have k: "?k \<noteq> cancelKey" by (simp add: cancelKey_def)
  have before: "Get ?s1 0 ?k = Inr (Other ''alice'')"
    by (simp add: Get_entry [OF chain] cancelKey_def)
  from Set_cancelKey_shadows [OF chain w, of started_ctx] k before
  show ?thesis by simp
qed

text \<open>
  The claim as stated fails for an identity whose entry holds \<^verbatim>\<open>nil\<close>, as
  \<^verbatim>\<open>SetContext(id, nil)\<close> leaves it. The set branch finds no chain there and builds a
  new one with its cancel function above \<open>w\<close>: \<^verbatim>\<open>Get(id, 1)\<close> returns the function,
  and \<^verbatim>\<open>Evict(id)\<close> calls it and removes the entry.
\<close>

theorem Set_cancelKey_shadows_counterexample:
  "contexts (snd (SetContext (snd (GetContext started_ctx started_store 0)) 0 None)) 0
     = Some None \<and>
   fst (Set started_ctx (snd (SetContext (snd (GetContext started_ctx started_store 0)) 0 None))
          0 cancelKey (Other ''x'')) = None \<and>
   Get (snd (Set started_ctx
               (snd (SetContext (snd (GetContext started_ctx started_store 0)) 0 None))
               0 cancelKey (Other ''x''))) 0 cancelKey
     = Inr (CancelFunc (Entry 1)) \<and>
   Evict (snd (Set started_ctx
                 (snd (SetContext (snd (GetContext started_ctx started_store 0)) 0 None))
                 0 cancelKey (Other ''x''))) 0
     = Some (None, \<lparr>contexts = Map.empty, cancelled = {Entry 1}, allocated = 2\<rparr>) \<and>
   Get \<lparr>contexts = Map.empty, cancelled = {Entry 1}, allocated = 2\<rparr> (0::nat) (cancelKey :: string key)
     = (Inl ErrGettingFromBackdrop :: error + string val)"
  by (simp add: backdrop_defs)

section \<open>Whole runs\<close>

text \<open>
  An identity that no call has named has no entry, whatever calls were served for other
  identities since the store started, and \<^verbatim>\<open>Get\<close> returns
  \<^verbatim>\<open>ErrGettingFromBackdrop\<close> for it.
\<close>

theorem Get_never_seen:
  assumes "serve baseCtx (startBackdrop C) cs = Some s"
    and "\<forall>c\<in>set cs. call_request c \<noteq> r"
  shows "contexts s r = None \<and> Get s r k = Inl ErrGettingFromBackdrop"
proof -
  have "contexts s r = contexts (startBackdrop C) r"
    using serve_frame [OF assms(2,1)] .
  then have "contexts s r = None" by (simp add: startBackdrop_def)
  then show ?thesis by (simp add: Get_absent)
qed

theorem Get_never_seen_witness:
  "\<exists>s. serve started_ctx (startBackdrop {})
          [CallSet 0 (OtherK ''user'') (Other ''alice''), CallGetContext 2] = Some s \<and>
       Get s (1::nat) (OtherK ''user'') = Inl ErrGettingFromBackdrop"
proof -
  let ?cs = "[CallSet 0 (OtherK ''user'') (Other ''alice''), CallGetContext 2]
               :: (nat, string, string) call list"
  obtain s where run: "serve started_ctx (startBackdrop {}) ?cs = Some s"
    by (simp add: backdrop_defs)
  have "\<forall>c\<in>set ?cs. call_request c \<noteq> 1" by simp
  from Get_never_seen [OF run this] run show ?thesis by blast
qed

lemma Done_mono: "Done A ctx \<Longrightarrow> A \<subseteq> B \<Longrightarrow> Done B ctx"
  by (induction ctx) auto

lemma handles_intact_start: "handles_intact (startBackdrop C)"
  by (simp add: handles_intact_def startBackdrop_def)

lemma Evict_intact:
  assumes "handles_intact s"
  shows "Evict s r = Some (None, s\<lparr>contexts := (contexts s)(r := None),
                                  cancelled := cancelled s \<union>
                                    (case contexts s r of
                                       Some (Some ctx) \<Rightarrow>
                                         (case Value ctx cancelKey of CancelFunc c \<Rightarrow> {c} | _ \<Rightarrow> {})
                                     | _ \<Rightarrow> {})\<rparr>)"
proof (cases "contexts s r")
  case None
  then have "Evict s r = Some (None, s)" by (simp add: Evict_no_handle)
  moreover from None have "(contexts s)(r := None) = contexts s" by auto
  ultimately show ?thesis using None by simp
next
  case (Some slot)
  with assms obtain ctx c where slot: "slot = Some ctx"
    and handle: "Value ctx cancelKey = CancelFunc c" and own: "Done {c} ctx"
    unfolding handles_intact_def by blast
  from own have "Done (insert c (cancelled s)) ctx" by (rule Done_mono) simp
  with Some slot handle show ?thesis by (simp add: Evict_handle)
qed

lemma call_step_intact:
  assumes "handles_intact s" and "plain c"
  shows "\<exists>s'. call_step baseCtx s c = Some s' \<and> handles_intact s'"
proof (cases c)
  case (CallGet r k)
  with assms show ?thesis by simp
next
  case (CallSet r k v)
  with assms(2) have k: "k \<noteq> cancelKey" by simp
  consider (chain) ctx where "contexts s r = Some (Some ctx)"
    | (none) "contexts s r = None \<or> contexts s r = Some None"
    by (cases "contexts s r") auto
  then have "handles_intact (snd (Set baseCtx s r k v))"
  proof cases
    case chain
    with assms(1) k show ?thesis
      by (auto simp add: Set_entry handles_intact_def)
  next
    case none
    with assms(1) show ?thesis
      by (auto simp add: Set_no_chain [OF none] handles_intact_def)
  qed
  with CallSet show ?thesis by simp
next
  case (CallGetContext r)
  consider (chain) ctx where "contexts s r = Some (Some ctx)"
    | (none) "contexts s r = None \<or> contexts s r = Some None"
    by (cases "contexts s r") auto
  then have "handles_intact (snd (GetContext baseCtx s r))"
  proof cases
    case chain
    with assms(1) show ?thesis by (simp add: GetContext_entry)
  next
    case none
    with assms(1) show ?thesis
      by (auto simp add: GetContext_no_chain [OF none] handles_intact_def)
  qed
  with CallGetContext show ?thesis by simp
next
  case (CallSetContext r ctx)
  with assms(2) show ?thesis by simp
next
  case (CallEvict r)
  from assms(1) have "handles_intact (s\<lparr>contexts := (contexts s)(r := None),
                                  cancelled := cancelled s \<union>
                                    (case contexts s r of
                                       Some (Some ctx) \<Rightarrow>
                                         (case Value ctx cancelKey of CancelFunc c \<Rightarrow> {c} | _ \<Rightarrow> {})
                                     | _ \<Rightarrow> {})\<rparr>)"
    by (auto simp add: handles_intact_def)
  with CallEvict Evict_intact [OF assms(1), of r] show ?thesis by simp
qed

lemma serve_intact:
  "handles_intact s \<Longrightarrow> \<forall>c\<in>set cs. plain c \<Longrightarrow>
   \<exists>s'. serve baseCtx s cs = Some s' \<and> handles_intact s'"
proof (induction cs arbitrary: s)
  case Nil
  then show ?case by simp
next
  case (Cons c cs)
  from Cons.prems(2) have "plain c" and rest: "\<forall>c\<in>set cs. plain c" by simp_all
  with Cons.prems(1) obtain s1 where s1: "call_step baseCtx s c = Some s1"
    and i1: "handles_intact s1"
    using call_step_intact by blast
  from Cons.IH [OF i1 rest] s1 show ?case by simp
qed

text \<open>
  In a run of calls without a \<^verbatim>\<open>SetContext\<close> and without a \<^verbatim>\<open>Set\<close> under the key
  \<^verbatim>\<open>1\<close>, every call returns, and an \<^verbatim>\<open>Evict\<close> of any identity after the run returns
  the \<^verbatim>\<open>nil\<close> error and leaves no entry for it.
\<close>

theorem plain_run_then_Evict:
  assumes "\<forall>c\<in>set cs. plain c"
  shows "\<exists>s. serve baseCtx (startBackdrop C) cs = Some s \<and>
             (\<forall>r. \<exists>s'. Evict s r = Some (None, s') \<and> contexts s' r = None)"
proof -
  from serve_intact [OF handles_intact_start assms]
  obtain s where run: "serve baseCtx (startBackdrop C) cs = Some s" and "handles_intact s"
    by blast
  then have "\<exists>s'. Evict s r = Some (None, s') \<and> contexts s' r = None" for r
    using Evict_intact [of s r] by simp
  with run show ?thesis by blast
qed

theorem plain_run_then_Evict_witness:
  "\<exists>s. serve started_ctx (startBackdrop {})
          [CallSet 0 (OtherK ''user'') (Other ''alice''), CallGetContext 1,
           CallSet 1 (OtherK ''user'') (Other ''bob''), CallEvict 1,
           CallGet 0 (OtherK ''user'')] = Some s \<and>
       (\<exists>s'. Evict s (0::nat) = Some (None, s') \<and> contexts s' 0 = None)"
proof -
  let ?cs = "[CallSet 0 (OtherK ''user'') (Other ''alice''), CallGetContext 1,
           CallSet 1 (OtherK ''user'') (Other ''bob''), CallEvict 1,
           CallGet 0 (OtherK ''user'')] :: (nat, string, string) call list"
  have "\<forall>c\<in>set ?cs. plain c" by (simp add: cancelKey_def)
  from plain_run_then_Evict [OF this, of started_ctx "{}"] show ?thesis by blast
qed

text \<open>
  The run of \<^verbatim>\<open>TestClearContextHandler\<close>: \<^verbatim>\<open>Set\<close> succeeds, the chain returned by
  \<^verbatim>\<open>GetContext\<close> resolves the key, \<^verbatim>\<open>SetContext\<close> of that chain succeeds, \<^verbatim>\<open>Get\<close>
  returns the value, and after the handler's \<^verbatim>\<open>Evict\<close> the final \<^verbatim>\<open>Get\<close> fails.
\<close>

theorem TestClearContextHandler_run:
  "\<exists>s1 ctx s2 s3 s4.
     Set started_ctx started_store 0 (OtherK ''test'') (Other ''testing'') = (None, s1) \<and>
     GetContext started_ctx s1 0 = (Some ctx, s2) \<and>
     Value ctx (OtherK ''test'') = Other ''testing'' \<and>
     SetContext s2 0 (Some ctx) = (None, s3) \<and>
     Get s3 0 (OtherK ''test'') = Inr (Other ''testing'') \<and>
     Evict s3 0 = Some (None, s4) \<and>
     Get s4 0 (OtherK ''test'') = Inl ErrGettingFromBackdrop"
  by (simp add: backdrop_defs)

end
